theory Spec2Isabelle
  imports Main
begin

section \<open>JavaScript values used by the scraper\<close>

text \<open>
  Strings are lists of characters. Counts and indices (\<open>maxResults\<close>, \<open>workers\<close>,
  \<open>array.length\<close>) are JavaScript numbers; the model takes the integer ones, as
  \<^typ>\<open>int\<close>, so that a negative value still behaves as the code makes it behave.
  An \<open>Error\<close> object is represented by its message.
\<close>

type_synonym error = string
type_synonym url = string

text \<open>
  \<open>Array.prototype.slice(start, end)\<close>: a negative index counts from the end, and
  both indices are clamped to the array.
\<close>

definition js_slice :: "'a list \<Rightarrow> int \<Rightarrow> int \<Rightarrow> 'a list" where
  "js_slice xs start fin =
     (let n = int (length xs);
          k = (if start < 0 then max (n + start) 0 else min start n);
          final = (if fin < 0 then max (n + fin) 0 else min fin n)
      in take (nat (final - k)) (drop (nat k) xs))"

text \<open>\<open>Math.ceil(a / b)\<close> for integers \<open>a\<close> and \<open>b \<noteq> 0\<close>.\<close>

definition ceil_div :: "int \<Rightarrow> int \<Rightarrow> int" where
  "ceil_div a b = - ((- a) div b)"

text \<open>
  White space as \<open>String.prototype.trim\<close> and the regular expression class \<open>\s\<close>
  see it, among the characters of \<^typ>\<open>char\<close>: tab, line feed, vertical tab, form feed,
  carriage return, space and no-break space.
\<close>

definition is_space :: "char \<Rightarrow> bool" where
  "is_space c = (of_char c \<in> {9, 10, 11, 12, 13, 32, 160 :: nat})"

definition trim :: "string \<Rightarrow> string" where
  "trim s = rev (dropWhile is_space (rev (dropWhile is_space s)))"

text \<open>Truthiness of a value that is \<open>null\<close>/\<open>undefined\<close> or a string.\<close>

definition truthy :: "string option \<Rightarrow> bool" where
  "truthy v = (case v of None \<Rightarrow> False | Some s \<Rightarrow> s \<noteq> [])"

text \<open>
  A JavaScript \<open>Set\<close> of strings, in insertion order: \<open>has\<close> is membership in the
  list, \<open>size\<close> its length, and \<open>add\<close> appends a new element only.
\<close>

definition Set_add :: "'a \<Rightarrow> 'a list \<Rightarrow> 'a list" where
  "Set_add x s = (if x \<in> set s then s else s @ [x])"

section \<open>scraper.js\<close>

subsection \<open>chunkArray\<close>

text \<open>
  The loop \<open>for (let i = 0; i < array.length; i += chunkSize)\<close>. It does not end
  when \<open>chunkSize \<le> 0\<close> and the array is not empty; the model then has no result.
\<close>

partial_function (option) chunkLoop ::
  "'a list \<Rightarrow> int \<Rightarrow> int \<Rightarrow> 'a list list \<Rightarrow> 'a list list option" where
  "chunkLoop array chunkSize i chunks =
     (if i < int (length array)
      then chunkLoop array chunkSize (i + chunkSize)
             (chunks @ [js_slice array i (i + chunkSize)])
      else Some chunks)"

declare chunkLoop.simps [code]

text \<open>
  With \<open>parts = 0\<close> the division gives \<open>Infinity\<close> (or \<open>NaN\<close> for an empty array):
  a non-empty array is then sliced once, whole, and \<open>i\<close> becomes \<open>Infinity\<close>.
\<close>

definition chunkArray :: "'a list \<Rightarrow> int \<Rightarrow> 'a list list option" where
  "chunkArray array parts =
     (if parts = 0 then (if array = [] then Some [] else Some [array])
      else chunkLoop array (ceil_div (int (length array)) parts) 0 [])"

subsection \<open>BrowserPool\<close>

text \<open>
  A browser is identified by a number. Whether a browser is still connected, and what
  \<open>chromium.launch\<close> returns (a browser, or an error), is decided outside the program:
  both are arguments of the model.
\<close>

type_synonym browser = nat

record BrowserPool =
  maxSize :: nat
  browsers :: "browser list"
  available :: "browser list"
  creating :: bool

definition new_BrowserPool :: "nat \<Rightarrow> BrowserPool" where
  "new_BrowserPool n = \<lparr>maxSize = n, browsers = [], available = [], creating = False\<rparr>"

text \<open>
  One pass through the body of \<open>acquire\<close>, up to the point where it returns or starts
  to wait: pop the last idle browser and return it if it is connected; otherwise launch
  a new browser if fewer than \<open>maxSize\<close> were created; otherwise wait.
\<close>

datatype attempt = Reused browser | Created browser | LaunchFailed error | MustWait

definition acquire_attempt ::
  "(browser \<Rightarrow> bool) \<Rightarrow> error + browser \<Rightarrow> BrowserPool \<Rightarrow> attempt \<times> BrowserPool" where
  "acquire_attempt isConnected createBrowser p =
     (let (popped, p1) =
            (if available p \<noteq> []
             then (Some (last (available p)), p\<lparr>available := butlast (available p)\<rparr>)
             else (None, p))
      in if popped \<noteq> None \<and> isConnected (the popped) then (Reused (the popped), p1)
         else if length (browsers p1) < maxSize p1
         then (case createBrowser of
                 Inl e \<Rightarrow> (LaunchFailed e, p1)
               | Inr b \<Rightarrow> (Created b, p1\<lparr>browsers := browsers p1 @ [b]\<rparr>))
         else (MustWait, p1))"

text \<open>
  \<open>acquire\<close> itself: after the wait of 100 ms it calls itself again. The model follows
  one caller, with no other task touching the pool during the waits; the polling then
  goes on for ever once the idle list is empty and the pool is full, and \<open>acquire\<close>
  has no result.
\<close>

partial_function (option) acquire ::
  "(browser \<Rightarrow> bool) \<Rightarrow> error + browser \<Rightarrow> BrowserPool \<Rightarrow>
   ((error + browser) \<times> BrowserPool) option" where
  "acquire isConnected createBrowser p =
     (case acquire_attempt isConnected createBrowser p of
        (Reused b, p1) \<Rightarrow> Some (Inr b, p1)
      | (Created b, p1) \<Rightarrow> Some (Inr b, p1)
      | (LaunchFailed e, p1) \<Rightarrow> Some (Inl e, p1)
      | (MustWait, p1) \<Rightarrow> acquire isConnected createBrowser p1)"

declare acquire.simps [code]

definition release :: "(browser \<Rightarrow> bool) \<Rightarrow> browser \<Rightarrow> BrowserPool \<Rightarrow> BrowserPool" where
  "release isConnected browser p =
     (if isConnected browser then p\<lparr>available := available p @ [browser]\<rparr> else p)"

subsection \<open>scrapeDirectUrl and normalizePhone\<close>

text \<open>
  A floating-point number is kept as the text \<open>parseFloat\<close> reads it from; the program
  never computes with one.
\<close>

datatype js_float = parseFloat string

record business =
  name :: "string option"
  address :: "string option"
  website :: "string option"
  domain :: "string option"
  phone :: "string option"
  rating :: "js_float option"
  reviews :: "int option"
  category :: "string option"
  coordinates :: "(js_float \<times> js_float) option"
  googleMapsUrl :: url

text \<open>
  What the browser shows for a place page: whether the name element became visible
  within the timeout, and what \<open>extractText\<close> and \<open>extractReviewData\<close> return for each
  selector (\<open>None\<close> is \<open>null\<close>: both catch their own errors). The coordinates are what the
  pattern \<open>@lat,lng\<close> finds in the URL.
\<close>

record page_view =
  name_visible :: bool
  name_text :: "string option"
  address_text :: "string option"
  website_text :: "string option"
  phone_text :: "string option"
  review_data :: "(js_float option \<times> int option) option"
  url_coordinates :: "(js_float \<times> js_float) option"

text \<open>\<open>page.goto\<close> throws (\<open>NavigationFails\<close>) or the page is rendered.\<close>

datatype visit = NavigationFails error | Rendered page_view

text \<open>The characters the pattern \<open>[^\d+\s()-]\<close> leaves in a phone number.\<close>

definition phone_char :: "char \<Rightarrow> bool" where
  "phone_char c =
     (c \<in> set ''0123456789'' \<or> c = CHR ''+'' \<or> is_space c \<or> c = CHR ''('' \<or> c = CHR '')''
      \<or> c = CHR ''-'')"

definition normalizePhone :: "string option \<Rightarrow> string option" where
  "normalizePhone raw =
     (if \<not> truthy raw then None
      else let s = trim (filter phone_char (the raw)) in if s = [] then None else Some s)"

definition scrapeDirectUrl :: "(url \<Rightarrow> visit) \<Rightarrow> url \<Rightarrow> error + business option" where
  "scrapeDirectUrl web url =
     (case web url of
        NavigationFails e \<Rightarrow> Inl e
      | Rendered page \<Rightarrow>
          if \<not> name_visible page then Inr None
          else
            let b = \<lparr>name = map_option trim (name_text page),
                     address = address_text page,
                     website = (if truthy (website_text page)
                                then Some (''https://www.'' @ the (website_text page)) else None),
                     domain = (if truthy (website_text page) then website_text page else None),
                     phone = normalizePhone (phone_text page),
                     rating = (case review_data page of None \<Rightarrow> None | Some (r, n) \<Rightarrow> r),
                     reviews = (case review_data page of None \<Rightarrow> None | Some (r, n) \<Rightarrow> n),
                     category = None,
                     coordinates = url_coordinates page,
                     googleMapsUrl = url\<rparr>
            in if truthy (name b) then Inr (Some b) else Inr None)"

subsection \<open>The dedup key\<close>

text \<open>
  The key is the name, a vertical bar, and the phone number or, when there is none, the
  empty string. The same template is written in scrapeUrlChunk and again in
  scrapeGoogleMaps. An undefined name prints as \<open>undefined\<close>.
\<close>

definition dedup_key :: "business \<Rightarrow> string" where
  "dedup_key b =
     (case name b of None \<Rightarrow> ''undefined'' | Some n \<Rightarrow> n) @ ''|'' @
     (if truthy (phone b) then the (phone b) else [])"

subsection \<open>scrapeUrlChunk\<close>

text \<open>
  The loop over the URLs of one chunk. Its state is the shared set \<open>globalSeen\<close>, which
  the worker receives by reference, and the worker's own \<open>results\<close>. An error thrown by
  scrapeDirectUrl is caught and the URL skipped.
\<close>

fun chunk_loop ::
  "(url \<Rightarrow> visit) \<Rightarrow> int \<Rightarrow> url list \<Rightarrow> string list \<times> business list \<Rightarrow>
   string list \<times> business list" where
  "chunk_loop web maxTotal [] (globalSeen, results) = (globalSeen, results)"
| "chunk_loop web maxTotal (url # urls) (globalSeen, results) =
     (if int (length globalSeen) \<ge> maxTotal then (globalSeen, results)
      else
        (case scrapeDirectUrl web url of
           Inl e \<Rightarrow> chunk_loop web maxTotal urls (globalSeen, results)
         | Inr None \<Rightarrow> chunk_loop web maxTotal urls (globalSeen, results)
         | Inr (Some b) \<Rightarrow>
             if truthy (name b) then
               (if dedup_key b \<notin> set globalSeen
                then chunk_loop web maxTotal urls (globalSeen, results @ [b])
                else chunk_loop web maxTotal urls (globalSeen, results))
             else chunk_loop web maxTotal urls (globalSeen, results)))"

text \<open>
  Everything one run of scrapeGoogleMaps meets outside the program: the connection
  state of the browsers when the pool is asked and when the browser is given back, the
  result of launching a browser, the links found on the result page (or the error
  thrown while looking for them), whether the context of worker \<open>i\<close> can be opened,
  prepared and closed (\<open>Some e\<close>: it throws \<open>e\<close>) and, if it cannot, when the worker
  rejects, and the place pages.
\<close>

record world =
  isConnected_at_acquire :: "browser \<Rightarrow> bool"
  launch_result :: "error + browser"
  listing_links :: "error + url list"
  context_error :: "nat \<Rightarrow> error option"
  worker_rejects_at :: "nat \<Rightarrow> nat"
  pages :: "url \<Rightarrow> visit"
  isConnected_at_release :: "browser \<Rightarrow> bool"

definition scrapeUrlChunk ::
  "world \<Rightarrow> url list \<Rightarrow> nat \<Rightarrow> string list \<Rightarrow> int \<Rightarrow> (error + business list) \<times> string list"
  where
  "scrapeUrlChunk w urls workerId globalSeen maxTotal =
     (case context_error w workerId of
        Some e \<Rightarrow> (Inl e, globalSeen)
      | None \<Rightarrow>
          (case chunk_loop (pages w) maxTotal urls (globalSeen, []) of
             (globalSeen', results) \<Rightarrow> (Inr results, globalSeen')))"

subsection \<open>collectListingUrls\<close>

text \<open>
  Navigation, consent and scrolling happen in the browser; the model starts from their
  outcome \<open>listing_links\<close> and keeps the last step, \<open>[...new Set(urls)]\<close>: the first
  occurrence of every link, in order.
\<close>

fun uniq :: "'a list \<Rightarrow> 'a list \<Rightarrow> 'a list" where
  "uniq seen [] = seen"
| "uniq seen (x # xs) = uniq (Set_add x seen) xs"

definition collectListingUrls :: "world \<Rightarrow> error + url list" where
  "collectListingUrls w =
     (case listing_links w of Inl e \<Rightarrow> Inl e | Inr urls \<Rightarrow> Inr (uniq [] urls))"

subsection \<open>scrapeGoogleMaps\<close>

text \<open>
  \<open>chunks.map((chunk, i) => scrapeUrlChunk(browser, chunk, i, seenBusinesses,
  maxResults))\<close>: one worker for each chunk, all sharing the set. The workers are
  interleaved at their \<open>await\<close>s; the model runs them one after the other and hands the
  set from each to the next, which gives the same results because no worker changes the
  set (lemma \<open>scrapeUrlChunk_globalSeen\<close>).
\<close>

fun run_workers ::
  "world \<Rightarrow> int \<Rightarrow> nat \<Rightarrow> url list list \<Rightarrow> string list \<Rightarrow>
   (error + business list) list \<times> string list" where
  "run_workers w maxTotal i [] globalSeen = ([], globalSeen)"
| "run_workers w maxTotal i (chunk # chunks) globalSeen =
     (case scrapeUrlChunk w chunk i globalSeen maxTotal of
        (r, globalSeen1) \<Rightarrow>
          (case run_workers w maxTotal (Suc i) chunks globalSeen1 of
             (rs, globalSeen2) \<Rightarrow> (r # rs, globalSeen2)))"

text \<open>
  \<open>Promise.all\<close>: when every worker fulfils, the results in the order of the workers;
  otherwise the error of the worker that rejects first in time. \<open>rejection_time\<close> gives
  the moment at which worker \<open>i\<close> rejects, if it does (two workers never reject at the
  same moment; for equal times the model takes the lower index).
\<close>

fun rejections :: "nat \<Rightarrow> (error + 'a) list \<Rightarrow> (nat \<times> error) list" where
  "rejections i [] = []"
| "rejections i (Inl e # rs) = (i, e) # rejections (Suc i) rs"
| "rejections i (Inr x # rs) = rejections (Suc i) rs"

fun fulfilled :: "(error + 'a) list \<Rightarrow> 'a list" where
  "fulfilled [] = []"
| "fulfilled (Inl e # rs) = fulfilled rs"
| "fulfilled (Inr x # rs) = x # fulfilled rs"

fun first_rejection ::
  "(nat \<Rightarrow> nat) \<Rightarrow> nat \<times> error \<Rightarrow> (nat \<times> error) list \<Rightarrow> nat \<times> error" where
  "first_rejection rejection_time earliest [] = earliest"
| "first_rejection rejection_time earliest (r # rs) =
     first_rejection rejection_time
       (if rejection_time (fst r) < rejection_time (fst earliest) then r else earliest) rs"

definition Promise_all :: "(nat \<Rightarrow> nat) \<Rightarrow> (error + 'a) list \<Rightarrow> error + 'a list" where
  "Promise_all rejection_time rs =
     (case rejections 0 rs of
        [] \<Rightarrow> Inr (fulfilled rs)
      | r # later \<Rightarrow> Inl (snd (first_rejection rejection_time r later)))"

text \<open>
  The two nested loops that merge the workers' results. \<open>break\<close> leaves the inner loop
  only: the outer loop goes on to the next chunk, whose inner loop tests the length again.
\<close>

fun merge_chunk :: "int \<Rightarrow> business list \<Rightarrow> business list \<times> string list \<Rightarrow>
   business list \<times> string list" where
  "merge_chunk maxResults [] (results, seenBusinesses) = (results, seenBusinesses)"
| "merge_chunk maxResults (b # chunk) (results, seenBusinesses) =
     (if int (length results) \<ge> maxResults then (results, seenBusinesses)
      else if dedup_key b \<notin> set seenBusinesses
      then merge_chunk maxResults chunk (results @ [b], Set_add (dedup_key b) seenBusinesses)
      else merge_chunk maxResults chunk (results, seenBusinesses))"

fun merge_chunks :: "int \<Rightarrow> business list list \<Rightarrow> business list \<times> string list \<Rightarrow>
   business list \<times> string list" where
  "merge_chunks maxResults [] st = st"
| "merge_chunks maxResults (chunk # chunkResults) st =
     merge_chunks maxResults chunkResults (merge_chunk maxResults chunk st)"

text \<open>
  The state scrapeGoogleMaps works on: the global pool, and the history of the calls
  this model makes to it, kept so that theorems can count them.
\<close>

datatype pool_call = Acquired browser | Released browser

record runtime =
  browserPool :: BrowserPool
  pool_calls :: "pool_call list"

text \<open>
  The \<open>try\<close> block: what it returns (\<open>Inr\<close>) or throws (\<open>Inl\<close>; the \<open>catch\<close> block logs
  the error and throws it again). It has no result when chunkArray does not end.
\<close>

definition try_block :: "world \<Rightarrow> int \<Rightarrow> int \<Rightarrow> (error + business list) option" where
  "try_block w maxResults workers =
     (case collectListingUrls w of
        Inl e \<Rightarrow> Some (Inl e)
      | Inr urls \<Rightarrow>
          if urls = [] then Some (Inr [])
          else
            (case chunkArray (js_slice urls 0 (maxResults * 2)) workers of
               None \<Rightarrow> None
             | Some chunks \<Rightarrow>
                 (case run_workers w maxResults 0 chunks [] of
                    (workerPromises, seenBusinesses) \<Rightarrow>
                      (case Promise_all (worker_rejects_at w) workerPromises of
                         Inl e \<Rightarrow> Some (Inl e)
                       | Inr chunkResults \<Rightarrow>
                           Some (Inr (fst (merge_chunks maxResults chunkResults
                                             ([], seenBusinesses))))))))"

definition finally_block :: "world \<Rightarrow> browser \<Rightarrow> runtime \<Rightarrow> runtime" where
  "finally_block w browser rt =
     rt\<lparr>browserPool := release (isConnected_at_release w) browser (browserPool rt),
        pool_calls := pool_calls rt @ [Released browser]\<rparr>"

text \<open>
  scrapeGoogleMaps: the outcome the caller receives, with the state at that moment. An
  error of \<open>acquire\<close> (the launch failed) is thrown before the \<open>try\<close> statement.
\<close>

definition scrapeGoogleMaps ::
  "world \<Rightarrow> int \<Rightarrow> int \<Rightarrow> runtime \<Rightarrow> ((error + business list) \<times> runtime) option" where
  "scrapeGoogleMaps w maxResults workers rt =
     (case acquire (isConnected_at_acquire w) (launch_result w) (browserPool rt) of
        None \<Rightarrow> None
      | Some (Inl e, pool1) \<Rightarrow> Some (Inl e, rt\<lparr>browserPool := pool1\<rparr>)
      | Some (Inr browser, pool1) \<Rightarrow>
          (let rt1 = rt\<lparr>browserPool := pool1,
                         pool_calls := pool_calls rt @ [Acquired browser]\<rparr>
           in case try_block w maxResults workers of
                None \<Rightarrow> None
              | Some outcome \<Rightarrow> Some (outcome, finally_block w browser rt1)))"

section \<open>server.js\<close>

text \<open>
  The server runs on one thread: a request handler runs without interruption up to its
  first \<open>await\<close>, and the code after an \<open>await\<close> runs when the awaited promise
  settles. The model is a state machine over these events. Its state holds the two
  variables of the program, \<open>activeJobs\<close> and \<open>jobs\<close>, the calls of scrapeGoogleMaps
  whose promise has not settled yet (\<open>in_flight\<close>), and, for every bulk request, how far
  its loop over the batches has come.
\<close>

record config =
  API_KEY :: "string option"
  DEFAULT_WORKERS :: int
  MAX_CONCURRENT_JOBS :: int

type_synonym job_id = string

datatype job_status = pending | completed | failed

record job =
  status :: job_status
  job_query :: "string option"
  createdAt :: "string option"
  job_results :: "business list option"
  job_error :: "error option"
  completedAt :: "string option"

datatype origin = FromSync | FromAsync job_id | FromBulk nat

text \<open>A call \<open>scrapeGoogleMaps(query, {maxResults, workers})\<close> and the handler that made it.\<close>

record run =
  origin :: origin
  run_query :: string
  opt_maxResults :: int
  opt_workers :: int

record bulk_task =
  waiting_for :: nat
  later_queries :: "string list"
  task_maxResults :: int
  task_workers :: int

record server =
  activeJobs :: int
  jobs :: "job_id \<rightharpoonup> job"
  in_flight :: "run list"
  bulk_tasks :: "bulk_task list"

definition initial_server :: server where
  "initial_server = \<lparr>activeJobs = 0, jobs = Map.empty, in_flight = [], bulk_tasks = []\<rparr>"

text \<open>
  A request: the \<open>x-api-key\<close> header and the fields of the JSON body the handlers read
  (\<open>None\<close>: the field is absent).
\<close>

record request =
  x_api_key :: "string option"
  body_query :: "string option"
  body_queries :: "string list option"
  body_maxResults :: "int option"
  body_workers :: "int option"

datatype response =
    Unauthorized401
  | BadRequest400 string
  | TooManyRequests429 int int
  | ScrapeOk "business list"
  | ScrapeFailed500 error
  | JobAccepted job_id
  | BulkOk nat

text \<open>
  The events: the three POST requests (the async one with the identifier
  \<open>randomUUID\<close> draws and the time), and the settling of the \<open>n\<close>-th call in flight,
  with its results or its error, at some time. The GET requests read the state only.
\<close>

datatype event =
    PostScrape request
  | PostScrapeBulk request
  | PostScrapeAsync request job_id string
  | Settled nat "error + business list" string

definition authMiddleware :: "config \<Rightarrow> request \<Rightarrow> bool" where
  "authMiddleware cfg req =
     (case API_KEY cfg of None \<Rightarrow> True | Some k \<Rightarrow> x_api_key req = Some k)"

text \<open>A destructuring default: \<open>{ maxResults = 20 } = req.body\<close>.\<close>

definition or_default :: "'a option \<Rightarrow> 'a \<Rightarrow> 'a" where
  "or_default v d = (case v of None \<Rightarrow> d | Some x \<Rightarrow> x)"

text \<open>POST /scrape, up to the call of scrapeGoogleMaps.\<close>

definition post_scrape :: "config \<Rightarrow> request \<Rightarrow> server \<Rightarrow> response list \<times> server" where
  "post_scrape cfg req s =
     (if \<not> authMiddleware cfg req then ([Unauthorized401], s)
      else if \<not> truthy (body_query req) then ([BadRequest400 ''query is required''], s)
      else if activeJobs s \<ge> MAX_CONCURRENT_JOBS cfg
      then ([TooManyRequests429 (activeJobs s) (MAX_CONCURRENT_JOBS cfg)], s)
      else ([], s\<lparr>activeJobs := activeJobs s + 1,
                   in_flight := in_flight s @
                     [\<lparr>origin = FromSync, run_query = the (body_query req),
                       opt_maxResults = min (or_default (body_maxResults req) 20) 100,
                       opt_workers = min (or_default (body_workers req) (DEFAULT_WORKERS cfg)) 5\<rparr>]
                  \<rparr>))"

text \<open>POST /scrape/bulk: the checks, and the first batch of three queries.\<close>

definition bulk_runs :: "nat \<Rightarrow> bulk_task \<Rightarrow> string list \<Rightarrow> run list" where
  "bulk_runs k t batch =
     map (\<lambda>q. \<lparr>origin = FromBulk k, run_query = q, opt_maxResults = task_maxResults t,
                opt_workers = task_workers t\<rparr>) batch"

definition post_scrape_bulk :: "config \<Rightarrow> request \<Rightarrow> server \<Rightarrow> response list \<times> server" where
  "post_scrape_bulk cfg req s =
     (if \<not> authMiddleware cfg req then ([Unauthorized401], s)
      else if body_queries req = None \<or> body_queries req = Some []
      then ([BadRequest400 ''queries array is required''], s)
      else if length (the (body_queries req)) > 20
      then ([BadRequest400 ''Maximum 20 queries per request''], s)
      else
        (let queries = the (body_queries req);
             t = \<lparr>waiting_for = length (take 3 queries), later_queries = drop 3 queries,
                  task_maxResults = or_default (body_maxResults req) 10,
                  task_workers = or_default (body_workers req) (DEFAULT_WORKERS cfg)\<rparr>;
             k = length (bulk_tasks s)
         in ([], s\<lparr>in_flight := in_flight s @ bulk_runs k t (take 3 queries),
                     bulk_tasks := bulk_tasks s @ [t]\<rparr>)))"

text \<open>POST /scrape/async: the job is stored as pending and the call is started.\<close>

definition post_scrape_async ::
  "config \<Rightarrow> request \<Rightarrow> job_id \<Rightarrow> string \<Rightarrow> server \<Rightarrow> response list \<times> server" where
  "post_scrape_async cfg req jobId now s =
     (if \<not> authMiddleware cfg req then ([Unauthorized401], s)
      else if \<not> truthy (body_query req) then ([BadRequest400 ''query is required''], s)
      else ([JobAccepted jobId],
            s\<lparr>jobs := (jobs s)(jobId \<mapsto>
                   \<lparr>status = pending, job_query = body_query req, createdAt = Some now,
                    job_results = None, job_error = None, completedAt = None\<rparr>),
              in_flight := in_flight s @
                [\<lparr>origin = FromAsync jobId, run_query = the (body_query req),
                  opt_maxResults = or_default (body_maxResults req) 20,
                  opt_workers = or_default (body_workers req) (DEFAULT_WORKERS cfg)\<rparr>]\<rparr>))"

text \<open>
  \<open>{...jobs.get(jobId), status: ...}\<close>: the stored job with some fields replaced.
  Spreading \<open>undefined\<close> gives an object without the other fields.
\<close>

definition spread_job :: "job option \<Rightarrow> job" where
  "spread_job j =
     (case j of
        Some old \<Rightarrow> old
      | None \<Rightarrow> \<lparr>status = pending, job_query = None, createdAt = None, job_results = None,
                  job_error = None, completedAt = None\<rparr>)"

text \<open>The \<open>then\<close> and the \<open>catch\<close> callback of the async call.\<close>

definition async_settled ::
  "job_id \<Rightarrow> error + business list \<Rightarrow> string \<Rightarrow> server \<Rightarrow> server" where
  "async_settled jobId outcome now s =
     (case outcome of
        Inr results \<Rightarrow>
          s\<lparr>jobs := (jobs s)(jobId \<mapsto>
               (spread_job (jobs s jobId))\<lparr>status := completed, job_results := Some results,
                                           completedAt := Some now\<rparr>)\<rparr>
      | Inl e \<Rightarrow>
          s\<lparr>jobs := (jobs s)(jobId \<mapsto>
               (spread_job (jobs s jobId))\<lparr>status := failed, job_error := Some e,
                                           completedAt := Some now\<rparr>)\<rparr>)"

text \<open>POST /scrape after the \<open>await\<close>: the response, and \<open>activeJobs--\<close> in \<open>finally\<close>.\<close>

definition sync_settled :: "error + business list \<Rightarrow> server \<Rightarrow> response list \<times> server" where
  "sync_settled outcome s =
     ([case outcome of Inr results \<Rightarrow> ScrapeOk results | Inl e \<Rightarrow> ScrapeFailed500 e],
      s\<lparr>activeJobs := activeJobs s - 1\<rparr>)"

text \<open>
  POST /scrape/bulk after a call of the current batch has settled: when it was the last
  one of the batch, \<open>Promise.allSettled\<close> resolves and the loop starts the next batch,
  or the response is sent. The collected results are not modelled.
\<close>

definition bulk_settled :: "nat \<Rightarrow> server \<Rightarrow> response list \<times> server" where
  "bulk_settled k s =
     (if k \<ge> length (bulk_tasks s) then ([], s)
      else
        (let t = bulk_tasks s ! k in
         if waiting_for t > 1
         then ([], s\<lparr>bulk_tasks := (bulk_tasks s)[k := t\<lparr>waiting_for := waiting_for t - 1\<rparr>]\<rparr>)
         else if later_queries t = []
         then ([BulkOk k], s\<lparr>bulk_tasks := (bulk_tasks s)[k := t\<lparr>waiting_for := 0\<rparr>]\<rparr>)
         else
           (let batch = take 3 (later_queries t);
                t' = t\<lparr>waiting_for := length batch, later_queries := drop 3 (later_queries t)\<rparr>
            in ([], s\<lparr>in_flight := in_flight s @ bulk_runs k t' batch,
                        bulk_tasks := (bulk_tasks s)[k := t']\<rparr>))))"

text \<open>A promise settles once: the call leaves \<open>in_flight\<close>, and its handler goes on.\<close>

definition settled ::
  "nat \<Rightarrow> error + business list \<Rightarrow> string \<Rightarrow> server \<Rightarrow> response list \<times> server" where
  "settled n outcome now s =
     (if n \<ge> length (in_flight s) then ([], s)
      else
        (let r = in_flight s ! n;
             s1 = s\<lparr>in_flight := take n (in_flight s) @ drop (Suc n) (in_flight s)\<rparr>
         in case origin r of
              FromSync \<Rightarrow> sync_settled outcome s1
            | FromAsync jobId \<Rightarrow> ([], async_settled jobId outcome now s1)
            | FromBulk k \<Rightarrow> bulk_settled k s1))"

fun handle :: "config \<Rightarrow> event \<Rightarrow> server \<Rightarrow> response list \<times> server" where
  "handle cfg (PostScrape req) s = post_scrape cfg req s"
| "handle cfg (PostScrapeBulk req) s = post_scrape_bulk cfg req s"
| "handle cfg (PostScrapeAsync req jobId now) s = post_scrape_async cfg req jobId now s"
| "handle cfg (Settled n outcome now) s = settled n outcome now s"

fun serve :: "config \<Rightarrow> event list \<Rightarrow> server \<Rightarrow> server" where
  "serve cfg [] s = s"
| "serve cfg (e # es) s = serve cfg es (snd (handle cfg e s))"

text \<open>
  \<open>randomUUID\<close> returns an identifier no job has yet: along a sequence of events, every
  async request carries an identifier that is not in \<open>jobs\<close> when it arrives.
\<close>

fun fresh_uuids :: "config \<Rightarrow> event list \<Rightarrow> server \<Rightarrow> bool" where
  "fresh_uuids cfg [] s = True"
| "fresh_uuids cfg (e # es) s =
     ((case e of PostScrapeAsync req jobId now \<Rightarrow> jobs s jobId = None | _ \<Rightarrow> True)
      \<and> fresh_uuids cfg es (snd (handle cfg e s)))"



section \<open>Auxiliary functions of the proofs\<close>

text \<open>Cutting a list into pieces of \<open>c\<close> elements, the last one possibly shorter.\<close>

function chop :: "nat \<Rightarrow> 'a list \<Rightarrow> 'a list list" where
  "chop c xs = (if xs = [] \<or> c = 0 then [] else take c xs # chop c (drop c xs))"
  by pat_completeness auto
termination
  by (relation "measure (\<lambda>(c, xs). length xs)") auto

declare chop.simps [simp del]

text \<open>The invariant of the merge loops.\<close>

definition merge_inv :: "int \<Rightarrow> business list \<times> string list \<Rightarrow> bool" where
  "merge_inv maxResults st =
     (distinct (map dedup_key (fst st)) \<and> dedup_key ` set (fst st) \<subseteq> set (snd st) \<and>
      int (length (fst st)) \<le> max 0 maxResults)"

text \<open>The jobs whose call is in flight, and the invariant of the job map.\<close>

fun async_ids :: "run list \<Rightarrow> job_id list" where
  "async_ids [] = []"
| "async_ids (r # rs) =
     (case origin r of FromAsync jobId \<Rightarrow> jobId # async_ids rs | _ \<Rightarrow> async_ids rs)"

definition job_shape :: "job \<Rightarrow> bool" where
  "job_shape j =
     ((status j = pending \<and> job_results j = None \<and> job_error j = None) \<or>
      (status j = completed \<and> job_results j \<noteq> None \<and> job_error j = None) \<or>
      (status j = failed \<and> job_error j \<noteq> None \<and> job_results j = None))"

definition async_inv :: "server \<Rightarrow> bool" where
  "async_inv s =
     (distinct (async_ids (in_flight s)) \<and>
      (\<forall>jobId \<in> set (async_ids (in_flight s)). \<exists>j. jobs s jobId = Some j \<and> status j = pending) \<and>
      (\<forall>jobId j. jobs s jobId = Some j \<longrightarrow> job_shape j))"

section \<open>Example inputs\<close>

text \<open>
  A result page with five links, one of them twice. Two places have the same name and no
  phone number, one page shows an empty name, and one cannot be loaded.
\<close>

definition example_page :: "string \<Rightarrow> page_view" where
  "example_page n =
     \<lparr>name_visible = True, name_text = Some n, address_text = None, website_text = None,
      phone_text = None, review_data = None, url_coordinates = None\<rparr>"

definition example_business :: "string \<Rightarrow> url \<Rightarrow> business" where
  "example_business n u =
     \<lparr>name = Some n, address = None, website = None, domain = None, phone = None,
      rating = None, reviews = None, category = None, coordinates = None, googleMapsUrl = u\<rparr>"

definition example_world :: world where
  "example_world =
     \<lparr>isConnected_at_acquire = (\<lambda>b. True), launch_result = Inr 0,
      listing_links = Inr [''u1'', ''u2'', ''u3'', ''u4'', ''u1'', ''u5''],
      context_error = (\<lambda>i. None), worker_rejects_at = (\<lambda>i. 0),
      pages = (\<lambda>u. if u = ''u1'' \<or> u = ''u2'' then Rendered (example_page '' Cafe '')
                    else if u = ''u3'' then Rendered (example_page ''Bar'')
                    else if u = ''u4'' then Rendered (example_page ''  '')
                    else NavigationFails ''timeout''),
      isConnected_at_release = (\<lambda>b. True)\<rparr>"

definition example_runtime :: runtime where
  "example_runtime = \<lparr>browserPool = new_BrowserPool 3, pool_calls = []\<rparr>"

text \<open>A pool with two idle browsers, of which the one released last has lost its connection.\<close>

definition example_pool :: BrowserPool where
  "example_pool = \<lparr>maxSize = 3, browsers = [0, 1], available = [0, 1], creating = False\<rparr>"

definition example_config :: config where
  "example_config = \<lparr>API_KEY = None, DEFAULT_WORKERS = 3, MAX_CONCURRENT_JOBS = 1\<rparr>"

definition example_request :: request where
  "example_request =
     \<lparr>x_api_key = None, body_query = Some ''cafe'', body_queries = None,
      body_maxResults = Some 500, body_workers = Some 8\<rparr>"

section \<open>Arithmetic of the chunk size\<close>

lemma ceil_div_pos:
  assumes "0 < b"
  shows "ceil_div a b = (a - 1) div b + 1"
proof -
  define q where "q = (a - 1) div b"
  define r where "r = (a - 1) mod b"
  have a: "a - 1 = b * q + r" by (simp add: q_def r_def)
  have r: "0 \<le> r" "r < b" using assms by (simp_all add: r_def)
  have "- a = b * (- q - 1) + (b - r - 1)" using a by (simp add: algebra_simps)
  moreover have "0 \<le> b - r - 1" "b - r - 1 < b" using r by simp_all
  ultimately have "(- a) div b = - q - 1" by (rule int_div_pos_eq)
  then show ?thesis by (simp add: ceil_div_def q_def)
qed

lemma ceil_div_nat: "0 < c \<Longrightarrow> ceil_div (int (Suc m)) (int c) = int (Suc (m div c))"
  by (simp add: ceil_div_pos zdiv_int)

lemma chunk_size_pos:
  "1 \<le> parts \<Longrightarrow> items \<noteq> [] \<Longrightarrow> 0 < nat (ceil_div (int (length items)) parts)"
  by (simp add: ceil_div_pos pos_imp_zdiv_nonneg_iff)

lemma div_ceil_less: "0 < p \<Longrightarrow> m div (Suc (m div p)) < (p::nat)"
proof -
  assume p: "0 < p"
  have "m mod p < p" using p by simp
  moreover have "p * (m div p) + m mod p = m" by simp
  ultimately have "m < p * (m div p) + p" by arith
  then have "m < p * Suc (m div p)" by simp
  then show ?thesis by (simp add: div_less_iff_less_mult mult.commute)
qed

section \<open>The chunks of chunkArray\<close>

lemma js_slice_nonneg:
  "0 \<le> i \<Longrightarrow> 0 \<le> c \<Longrightarrow> js_slice xs i (i + c) = take (nat c) (drop (nat i) xs)"
  by (auto simp: js_slice_def Let_def min_def max_def)

lemma chop_Nil: "chop c [] = []"
  by (simp add: chop.simps)

lemma chop_nonempty:
  "0 < c \<Longrightarrow> xs \<noteq> [] \<Longrightarrow> chop c xs = take c xs # chop c (drop c xs)"
  by (subst chop.simps) simp

text \<open>The loop, started at a non-negative index with a positive step, ends.\<close>

lemma chunkLoop_chop:
  "1 \<le> c \<Longrightarrow> 0 \<le> i \<Longrightarrow>
   chunkLoop array c i chunks = Some (chunks @ chop (nat c) (drop (nat i) array))"
proof (induction "length array - nat i" arbitrary: i chunks rule: less_induct)
  case less
  show ?case
  proof (cases "i < int (length array)")
    case False
    then have "drop (nat i) array = []" by simp
    with False show ?thesis
      by (subst chunkLoop.simps) (simp add: chop_Nil)
  next
    case True
    have m: "length array - nat (i + c) < length array - nat i"
      using True less.prems by linarith
    have ih: "chunkLoop array c (i + c) (chunks @ [js_slice array i (i + c)])
        = Some ((chunks @ [js_slice array i (i + c)]) @ chop (nat c) (drop (nat (i + c)) array))"
      using less.hyps [OF m] less.prems by simp
    have d: "drop (nat (i + c)) array = drop (nat c) (drop (nat i) array)"
      using less.prems by (simp add: nat_add_distrib add.commute)
    have ne: "drop (nat i) array \<noteq> []" using True less.prems by simp
    have c0: "0 < nat c" using less.prems by simp
    have "chunkLoop array c i chunks
        = Some ((chunks @ [js_slice array i (i + c)]) @ chop (nat c) (drop (nat (i + c)) array))"
      by (subst chunkLoop.simps) (simp only: True if_True ih)
    also have "\<dots> = Some (chunks @ chop (nat c) (drop (nat i) array))"
      using less.prems by (simp add: chop_nonempty [OF c0 ne] js_slice_nonneg d)
    finally show ?thesis .
  qed
qed

lemma chunkArray_chop:
  assumes "1 \<le> parts"
  shows "chunkArray items parts = Some (chop (nat (ceil_div (int (length items)) parts)) items)"
proof (cases "items = []")
  case True
  then show ?thesis
    using assms by (simp add: chunkArray_def ceil_div_def chop_Nil chunkLoop.simps)
next
  case False
  have "1 \<le> ceil_div (int (length items)) parts"
    using assms False by (simp add: ceil_div_pos pos_imp_zdiv_nonneg_iff)
  then show ?thesis
    using assms chunkLoop_chop [of "ceil_div (int (length items)) parts" 0 items "[]"]
    by (simp add: chunkArray_def)
qed

lemma concat_chop: "0 < c \<Longrightarrow> concat (chop c xs) = xs"
proof (induction c xs rule: chop.induct)
  case (1 c xs)
  then show ?case by (subst chop.simps) auto
qed

lemma length_chop:
  "0 < c \<Longrightarrow> xs \<noteq> [] \<Longrightarrow> length (chop c xs) = Suc ((length xs - 1) div c)"
proof (induction c xs rule: chop.induct)
  case (1 c xs)
  show ?case
  proof (cases "length xs \<le> c")
    case True
    then have "drop c xs = []" by simp
    moreover have "length xs - 1 < c" using True 1(2) by arith
    ultimately show ?thesis using 1(2,3) by (simp add: chop_nonempty chop_Nil)
  next
    case False
    then have ne: "drop c xs \<noteq> []" by simp
    have ih: "length (chop c (drop c xs)) = Suc ((length (drop c xs) - 1) div c)"
      using 1 ne by simp
    have "c \<le> length xs - 1" using False by arith
    then have "(length xs - 1) div c = Suc ((length xs - 1 - c) div c)"
      using 1(2) by (simp add: le_div_geq)
    moreover have "length (drop c xs) - 1 = length xs - 1 - c" by simp
    ultimately show ?thesis using 1(2,3) ih by (simp add: chop_nonempty)
  qed
qed

lemma nth_chop:
  "0 < c \<Longrightarrow> k < length (chop c xs) \<Longrightarrow> chop c xs ! k = take c (drop (k * c) xs)"
proof (induction c xs arbitrary: k rule: chop.induct)
  case (1 c xs)
  show ?case
  proof (cases "xs = []")
    case True
    with 1 show ?thesis by (simp add: chop_Nil)
  next
    case False
    show ?thesis
    proof (cases k)
      case 0
      then show ?thesis using 1(2) False by (simp add: chop_nonempty)
    next
      case (Suc j)
      then have "j < length (chop c (drop c xs))"
        using 1(2,3) False by (simp add: chop_nonempty)
      then have "chop c (drop c xs) ! j = take c (drop (j * c) (drop c xs))"
        using 1 False by simp
      then show ?thesis using 1(2) False Suc by (simp add: chop_nonempty add.commute)
    qed
  qed
qed

lemma chunk_count_le:
  assumes "1 \<le> parts" "items \<noteq> []"
  shows "int (length (chop (nat (ceil_div (int (length items)) parts)) items)) \<le> parts"
proof -
  obtain m where m: "length items = Suc m" using assms(2) by (cases items) auto
  define p where "p = nat parts"
  have p: "parts = int p" "0 < p" using assms(1) by (simp_all add: p_def)
  have c: "nat (ceil_div (int (length items)) parts) = Suc (m div p)"
    using ceil_div_nat [of p m] m p by simp
  have "length (chop (Suc (m div p)) items) = Suc (m div Suc (m div p))"
    using length_chop [of "Suc (m div p)" items] assms(2) m by simp
  then show ?thesis using div_ceil_less [OF p(2), of m] c p by simp
qed

text \<open>
  Claim C5, as the code has it. For a non-empty list and at least one worker, chunkArray
  returns at most \<open>parts\<close> chunks, and never an empty one: with
  \<open>size = ceil (length / parts)\<close> there are \<open>ceil (length / size)\<close> chunks, chunk \<open>k\<close>
  is the \<open>size\<close> items from position \<open>k * size\<close> on, every chunk but the last has
  exactly \<open>size\<close> items, and the last has between 1 and \<open>size\<close> items.
\<close>

theorem chunkArray_chunks:
  assumes "items \<noteq> []" and "1 \<le> parts"
  shows "\<exists>chunks size. chunkArray items parts = Some chunks \<and>
           int size = ceil_div (int (length items)) parts \<and>
           1 \<le> length chunks \<and> int (length chunks) \<le> parts \<and>
           int (length chunks) = ceil_div (int (length items)) (int size) \<and>
           (\<forall>k < length chunks. chunks ! k = take size (drop (k * size) items)) \<and>
           (\<forall>k. Suc k < length chunks \<longrightarrow> length (chunks ! k) = size) \<and>
           1 \<le> length (last chunks) \<and> length (last chunks) \<le> size"
proof -
  define size where "size = nat (ceil_div (int (length items)) parts)"
  define chunks where "chunks = chop size items"
  have pos: "0 < size" unfolding size_def using assms(2,1) by (rule chunk_size_pos)
  have run: "chunkArray items parts = Some chunks"
    unfolding chunks_def size_def using assms(2) by (rule chunkArray_chop)
  have sz: "int size = ceil_div (int (length items)) parts"
    using pos by (simp add: size_def)
  have len: "length chunks = Suc ((length items - 1) div size)"
    unfolding chunks_def using pos assms(1) by (rule length_chop)
  have le: "int (length chunks) \<le> parts"
    unfolding chunks_def size_def using assms(2,1) by (rule chunk_count_le)
  have cnt: "int (length chunks) = ceil_div (int (length items)) (int size)"
  proof -
    obtain m where m: "length items = Suc m" using assms(1) by (cases items) auto
    have "ceil_div (int (Suc m)) (int size) = int (Suc (m div size))"
      using pos by (rule ceil_div_nat)
    then show ?thesis using len m by simp
  qed
  have nth: "\<forall>k < length chunks. chunks ! k = take size (drop (k * size) items)"
    unfolding chunks_def using pos by (simp add: nth_chop)
  have full: "\<forall>k. Suc k < length chunks \<longrightarrow> length (chunks ! k) = size"
  proof (intro allI impI)
    fix k assume k: "Suc k < length chunks"
    then have "Suc k \<le> (length items - 1) div size" using len by simp
    then have "Suc k * size \<le> length items - 1"
      using pos by (simp add: less_eq_div_iff_mult_less_eq)
    then have "k * size + size \<le> length items" by simp
    moreover have "chunks ! k = take size (drop (k * size) items)" using nth k by simp
    ultimately show "length (chunks ! k) = size" by simp
  qed
  have lastc: "last chunks = take size (drop ((length items - 1) div size * size) items)"
  proof -
    have "chunks \<noteq> []" using len by auto
    then have "last chunks = chunks ! (length chunks - 1)" by (rule last_conv_nth)
    then show ?thesis using nth len by simp
  qed
  have off: "(length items - 1) div size * size \<le> length items - 1"
    by simp
  have "0 < length items" using assms(1) by simp
  with off have "(length items - 1) div size * size < length items" by linarith
  then have last_len: "1 \<le> length (last chunks)" "length (last chunks) \<le> size"
    using pos by (simp_all add: lastc)
  show ?thesis
    using run sz len le cnt nth full last_len
    by (intro exI [of _ chunks] exI [of _ size]) simp
qed

text \<open>
  Ten items for four workers: the chunk size is 3, the chunks are of 3, 3, 3 and 1 items.
\<close>

theorem chunkArray_chunks_witness:
  "''abcdefghij'' \<noteq> [] \<and> (1::int) \<le> 4 \<and>
   chunkArray ''abcdefghij'' 4 = Some [''abc'', ''def'', ''ghi'', ''j''] \<and>
   (\<exists>chunks size. chunkArray ''abcdefghij'' 4 = Some chunks \<and>
      int size = ceil_div (int (length ''abcdefghij'')) 4 \<and>
      int (length chunks) \<le> 4 \<and> length (last chunks) \<le> size)"
proof -
  have ne: "''abcdefghij'' \<noteq> []" by simp
  have p: "(1::int) \<le> 4" by simp
  have run: "chunkArray ''abcdefghij'' 4 = Some [''abc'', ''def'', ''ghi'', ''j'']"
    by code_simp
  from chunkArray_chunks [OF ne p] obtain chunks size where
    "chunkArray ''abcdefghij'' 4 = Some chunks"
    "int size = ceil_div (int (length ''abcdefghij'')) 4"
    "int (length chunks) \<le> 4" "length (last chunks) \<le> size"
    by blast
  then show ?thesis using ne p run by blast
qed

text \<open>
  Claim C5, as stated, fails: four items for three workers give two chunks, not three,
  and ten items for four workers give chunks of 3, 3, 3 and 1 items, whose sizes differ
  by 2.
\<close>

theorem chunkArray_count_counterexample:
  "chunkArray ''abcd'' 3 = Some [''ab'', ''cd''] \<and>
   chunkArray ''abcdefghij'' 4 = Some [''abc'', ''def'', ''ghi'', ''j'']"
  by code_simp

text \<open>
  Claim C6. For at least one worker chunkArray returns, and the chunks, concatenated in
  order, are the input list: no item is lost, repeated or moved, and the chunk lengths
  sum to the length of the input. The result is a function of the two arguments.
\<close>

theorem chunkArray_concat:
  assumes "1 \<le> parts"
  shows "\<exists>chunks. chunkArray items parts = Some chunks \<and> concat chunks = items \<and>
           sum_list (map length chunks) = length items"
proof (cases "items = []")
  case True
  then show ?thesis using assms by (simp add: chunkArray_chop chop_Nil)
next
  case False
  have "concat (chop (nat (ceil_div (int (length items)) parts)) items) = items"
    using chunk_size_pos [OF assms False] by (rule concat_chop)
  then show ?thesis using assms
    by (metis chunkArray_chop length_concat)
qed

theorem chunkArray_concat_witness:
  "(1::int) \<le> 3 \<and> chunkArray ''abcdefg'' 3 = Some [''abc'', ''def'', ''g''] \<and>
   (\<exists>chunks. chunkArray ''abcdefg'' 3 = Some chunks \<and> concat chunks = ''abcdefg'' \<and>
      sum_list (map length chunks) = length ''abcdefg'')"
proof -
  have p: "(1::int) \<le> 3" by simp
  have run: "chunkArray ''abcdefg'' 3 = Some [''abc'', ''def'', ''g'']"
    by code_simp
  show ?thesis using p run chunkArray_concat [OF p, of "''abcdefg''"] by blast
qed

section \<open>The workers and the merge\<close>


lemma chunk_loop_exhausted:
  "int (length globalSeen) \<ge> maxTotal \<Longrightarrow>
   chunk_loop web maxTotal urls (globalSeen, results) = (globalSeen, results)"
  by (cases urls) simp_all

lemma chunk_loop_skip:
  "scrapeDirectUrl web url = Inr None \<Longrightarrow>
   chunk_loop web maxTotal (url # urls) st = chunk_loop web maxTotal urls st"
  by (cases st) (simp add: chunk_loop_exhausted)

lemma chunk_loop_globalSeen:
  "fst (chunk_loop web maxTotal urls (globalSeen, results)) = globalSeen"
  by (induction urls arbitrary: results) (simp_all split: sum.splits option.splits)

lemma chunk_loop_named:
  "\<forall>r \<in> set results. truthy (name r) \<Longrightarrow>
   \<forall>r \<in> set (snd (chunk_loop web maxTotal urls (globalSeen, results))). truthy (name r)"
proof (induction urls arbitrary: results)
  case Nil
  then show ?case by simp
next
  case (Cons url urls)
  show ?case
  proof (cases "scrapeDirectUrl web url")
    case (Inl e)
    then show ?thesis using Cons by simp
  next
    case (Inr found)
    show ?thesis
    proof (cases found)
      case None
      then show ?thesis using Cons Inr by simp
    next
      case (Some b)
      show ?thesis
      proof (cases "truthy (name b) \<and> dedup_key b \<notin> set globalSeen")
        case True
        then have "\<forall>r \<in> set (results @ [b]). truthy (name r)"
          using Cons.prems by simp
        then have "\<forall>r \<in> set (snd (chunk_loop web maxTotal urls (globalSeen, results @ [b]))).
            truthy (name r)"
          by (rule Cons.IH)
        moreover have "\<forall>r \<in> set results. truthy (name r)" by (rule Cons.prems)
        ultimately show ?thesis using Inr Some True by simp
      next
        case False
        have "\<forall>r \<in> set (snd (chunk_loop web maxTotal urls (globalSeen, results))).
            truthy (name r)"
          using Cons.prems by (rule Cons.IH)
        moreover have "\<forall>r \<in> set results. truthy (name r)" by (rule Cons.prems)
        ultimately show ?thesis using Inr Some False by auto
      qed
    qed
  qed
qed

lemma scrapeUrlChunk_globalSeen:
  "snd (scrapeUrlChunk w urls workerId globalSeen maxTotal) = globalSeen"
  using chunk_loop_globalSeen [of "pages w" maxTotal urls globalSeen "[]"]
  by (auto simp: scrapeUrlChunk_def split: option.splits prod.splits)

lemma scrapeUrlChunk_named:
  "fst (scrapeUrlChunk w urls workerId globalSeen maxTotal) = Inr results \<Longrightarrow>
   \<forall>r \<in> set results. truthy (name r)"
  using chunk_loop_named [of "[]" "pages w" maxTotal urls globalSeen]
  by (auto simp: scrapeUrlChunk_def split: option.splits prod.splits)

lemma run_workers_globalSeen:
  "snd (run_workers w maxTotal i chunks globalSeen) = globalSeen"
proof (induction chunks arbitrary: i)
  case Nil
  show ?case by simp
next
  case (Cons chunk chunks)
  show ?case
    using scrapeUrlChunk_globalSeen [of w chunk i globalSeen maxTotal] Cons [of "Suc i"]
    by (auto split: prod.splits)
qed

lemma run_workers_named:
  "Inr results \<in> set (fst (run_workers w maxTotal i chunks globalSeen)) \<Longrightarrow>
   \<forall>r \<in> set results. truthy (name r)"
proof (induction chunks arbitrary: i globalSeen)
  case Nil
  then show ?case by simp
next
  case (Cons chunk chunks)
  obtain r g1 where a: "scrapeUrlChunk w chunk i globalSeen maxTotal = (r, g1)"
    by (cases "scrapeUrlChunk w chunk i globalSeen maxTotal")
  obtain rs g2 where b: "run_workers w maxTotal (Suc i) chunks g1 = (rs, g2)"
    by (cases "run_workers w maxTotal (Suc i) chunks g1")
  from Cons.prems a b have "Inr results = r \<or> Inr results \<in> set rs" by auto
  then show ?case
  proof
    assume "Inr results = r"
    then show ?thesis using scrapeUrlChunk_named [of w chunk i globalSeen maxTotal results] a
      by simp
  next
    assume "Inr results \<in> set rs"
    then show ?thesis using Cons.IH [of "Suc i" g1] b by simp
  qed
qed

lemma rejections_Nil: "rejections i rs = [] \<Longrightarrow> rs = map Inr (fulfilled rs)"
  by (induction i rs rule: rejections.induct) simp_all

lemma Promise_all_first_in_time:
  "Promise_all (\<lambda>i. if i = 0 then 5 else 1) [Inl ''e0'', Inr x, Inl ''e2''] = Inl ''e2''"
  by (simp add: Promise_all_def)

lemma Promise_all_Inr:
  "Promise_all rejection_time rs = Inr xs \<Longrightarrow> rs = map Inr xs"
  using rejections_Nil [of 0 rs] by (auto simp: Promise_all_def split: list.splits)

lemma merge_chunk_inv:
  "merge_inv maxResults st \<Longrightarrow> merge_inv maxResults (merge_chunk maxResults chunk st)"
proof (induction chunk arbitrary: st)
  case Nil
  then show ?case by (cases st) simp
next
  case (Cons b chunk)
  obtain results seen where st: "st = (results, seen)" by (cases st)
  show ?case
  proof (cases "int (length results) \<ge> maxResults \<or> dedup_key b \<in> set seen")
    case True
    then show ?thesis using Cons st by auto
  next
    case False
    have "merge_inv maxResults (results @ [b], Set_add (dedup_key b) seen)"
      using Cons.prems False st by (auto simp: merge_inv_def Set_add_def)
    then show ?thesis using Cons.IH False st by simp
  qed
qed


lemma merge_chunk_subset:
  "set (fst (merge_chunk maxResults chunk st)) \<subseteq> set (fst st) \<union> set chunk"
proof (induction chunk arbitrary: st)
  case Nil
  then show ?case by (cases st) simp
next
  case (Cons b chunk)
  obtain results seen where st: "st = (results, seen)" by (cases st)
  show ?case
    using Cons [of "(results @ [b], Set_add (dedup_key b) seen)"] Cons [of "(results, seen)"] st
    by auto
qed

lemma merge_chunks_inv:
  "merge_inv maxResults st \<Longrightarrow> merge_inv maxResults (merge_chunks maxResults chunkResults st)"
  by (induction chunkResults arbitrary: st) (simp_all add: merge_chunk_inv)

lemma merge_chunks_subset:
  "set (fst (merge_chunks maxResults chunkResults st)) \<subseteq> set (fst st) \<union> \<Union> (set ` set chunkResults)"
proof (induction chunkResults arbitrary: st)
  case Nil
  show ?case by simp
next
  case (Cons chunk chunkResults)
  show ?case
    using Cons [of "merge_chunk maxResults chunk st"] merge_chunk_subset [of maxResults chunk st]
    by auto
qed


lemma try_block_results:
  assumes "try_block w maxResults workers = Some (Inr results)"
  shows "distinct (map dedup_key results) \<and> int (length results) \<le> max 0 maxResults \<and>
         (\<forall>r \<in> set results. truthy (name r))"
proof (cases "collectListingUrls w")
  case (Inl e)
  then show ?thesis using assms by (simp add: try_block_def)
next
  case (Inr urls)
  show ?thesis
  proof (cases "urls = []")
    case True
    then show ?thesis using assms Inr by (auto simp: try_block_def)
  next
    case False
    obtain chunks where ch: "chunkArray (js_slice urls 0 (maxResults * 2)) workers = Some chunks"
      using assms Inr False by (auto simp: try_block_def split: option.splits)
    obtain promises seen where rw: "run_workers w maxResults 0 chunks [] = (promises, seen)"
      by (cases "run_workers w maxResults 0 chunks []")
    obtain chunkResults where pa: "Promise_all (worker_rejects_at w) promises = Inr chunkResults"
      using assms Inr False ch rw by (auto simp: try_block_def split: sum.splits)
    have res: "results = fst (merge_chunks maxResults chunkResults ([], seen))"
      using assms Inr False ch rw pa by (simp add: try_block_def)
    have "merge_inv maxResults ([], seen)" by (simp add: merge_inv_def)
    then have "merge_inv maxResults (merge_chunks maxResults chunkResults ([], seen))"
      by (rule merge_chunks_inv)
    then have a: "distinct (map dedup_key results)" "int (length results) \<le> max 0 maxResults"
      using res by (simp_all add: merge_inv_def)
    have sub: "set results \<subseteq> \<Union> (set ` set chunkResults)"
      using merge_chunks_subset [of maxResults chunkResults "([], seen)"] res by simp
    have "\<forall>r \<in> set results. truthy (name r)"
    proof
      fix r assume "r \<in> set results"
      then obtain c where c: "c \<in> set chunkResults" "r \<in> set c" using sub by auto
      have "promises = map Inr chunkResults" using pa by (rule Promise_all_Inr)
      then have "Inr c \<in> set (fst (run_workers w maxResults 0 chunks []))"
        using c(1) rw by simp
      then have "\<forall>r \<in> set c. truthy (name r)" by (rule run_workers_named)
      then show "truthy (name r)" using c(2) by simp
    qed
    then show ?thesis using a by simp
  qed
qed

section \<open>The pool\<close>

lemma acquire_attempt_reuse:
  "available p \<noteq> [] \<Longrightarrow> isConnected (last (available p)) \<Longrightarrow>
   acquire_attempt isConnected createBrowser p =
     (Reused (last (available p)), p\<lparr>available := butlast (available p)\<rparr>)"
  by (simp add: acquire_attempt_def)

text \<open>
  Claim C4, as the code has it. Whenever acquire is called while the idle list is not
  empty and the browser released last (the one \<open>pop\<close> takes) is still connected,
  acquire returns that browser, takes it off the idle list and creates no browser: the
  list of created browsers is unchanged.
\<close>

theorem acquire_reuses_last_idle:
  assumes "available p \<noteq> []" and "isConnected (last (available p))"
  shows "acquire isConnected createBrowser p =
           Some (Inr (last (available p)), p\<lparr>available := butlast (available p)\<rparr>)"
  using assms by (subst acquire.simps) (simp add: acquire_attempt_reuse)

theorem acquire_reuses_last_idle_witness:
  "available example_pool \<noteq> [] \<and> last (available example_pool) = 1 \<and>
   acquire (\<lambda>b. True) (Inr 2) example_pool =
     Some (Inr 1, \<lparr>maxSize = 3, browsers = [0, 1], available = [0], creating = False\<rparr>)"
proof -
  have ne: "available example_pool \<noteq> []" by (simp add: example_pool_def)
  have conn: "(\<lambda>b::browser. True) (last (available example_pool))" by simp
  show ?thesis
    using ne acquire_reuses_last_idle [of example_pool "\<lambda>b. True" "Inr 2", OF ne conn]
    by (simp add: example_pool_def)
qed

text \<open>
  Claim C4, as stated, fails. Browsers 0 and 1 are idle, browser 0 is connected and
  browser 1, released last, is not: acquire drops browser 1 and, as fewer than three
  browsers exist, launches browser 2 and returns it, although browser 0 is idle and
  connected.
\<close>

theorem acquire_idle_connected_counterexample:
  "available example_pool = [0, 1] \<and> browsers example_pool = [0, 1] \<and>
   acquire (\<lambda>b. b = 0) (Inr 2) example_pool =
     Some (Inr 2, \<lparr>maxSize = 3, browsers = [0, 1, 2], available = [0], creating = False\<rparr>)"
  by (simp add: example_pool_def acquire.simps acquire_attempt_def)

section \<open>The results of a run\<close>

lemma example_run:
  "scrapeGoogleMaps example_world 2 2 example_runtime =
     Some (Inr [example_business ''Cafe'' ''u1'', example_business ''Bar'' ''u3''],
           \<lparr>browserPool = \<lparr>maxSize = 3, browsers = [0], available = [0], creating = False\<rparr>,
            pool_calls = [Acquired 0, Released 0]\<rparr>)"
  by code_simp

lemma scrapeGoogleMaps_try_block:
  assumes "scrapeGoogleMaps w maxResults workers rt = Some (Inr results, rt')"
  shows "try_block w maxResults workers = Some (Inr results)"
  using assms
  by (auto simp: scrapeGoogleMaps_def Let_def split: option.splits sum.splits prod.splits)




text \<open>
  Claim C10. Every record of the list scrapeGoogleMaps returns has a non-empty name.
  scrapeDirectUrl returns \<open>null\<close> when the name element does not become visible or when
  the trimmed name is missing or empty, and a record it returns has a non-empty name; a
  URL for which it returns \<open>null\<close> is skipped by the worker and adds no record.
\<close>

theorem results_have_names:
  "(web url = Rendered page \<and>
      (\<not> name_visible page \<or> \<not> truthy (map_option trim (name_text page)))
      \<longrightarrow> scrapeDirectUrl web url = Inr None) \<and>
   (scrapeDirectUrl web url = Inr (Some b) \<longrightarrow> (\<exists>n. name b = Some n \<and> n \<noteq> [])) \<and>
   (scrapeDirectUrl web url = Inr None
      \<longrightarrow> chunk_loop web maxTotal (url # urls) st = chunk_loop web maxTotal urls st) \<and>
   (scrapeGoogleMaps w maxResults workers rt = Some (Inr results, rt')
      \<longrightarrow> (\<forall>r \<in> set results. \<exists>n. name r = Some n \<and> n \<noteq> []))"
proof (intro conjI impI)
  assume "web url = Rendered page \<and>
      (\<not> name_visible page \<or> \<not> truthy (map_option trim (name_text page)))"
  then show "scrapeDirectUrl web url = Inr None"
    by (auto simp: scrapeDirectUrl_def Let_def)
next
  assume "scrapeDirectUrl web url = Inr (Some b)"
  then have "truthy (name b)"
    by (auto simp: scrapeDirectUrl_def Let_def split: visit.splits if_splits)
  then show "\<exists>n. name b = Some n \<and> n \<noteq> []"
    by (simp add: truthy_def split: option.splits)
next
  assume "scrapeDirectUrl web url = Inr None"
  then show "chunk_loop web maxTotal (url # urls) st = chunk_loop web maxTotal urls st"
    by (rule chunk_loop_skip)
next
  assume "scrapeGoogleMaps w maxResults workers rt = Some (Inr results, rt')"
  then have "try_block w maxResults workers = Some (Inr results)"
    by (rule scrapeGoogleMaps_try_block)
  then have "\<forall>r \<in> set results. truthy (name r)"
    using try_block_results by blast
  then show "\<forall>r \<in> set results. \<exists>n. name r = Some n \<and> n \<noteq> []"
    by (auto simp: truthy_def split: option.splits)
qed

text \<open>
  The page of \<open>u4\<close> shows a name of two spaces: no record. The run of the example
  returns the names \<open>Cafe\<close> (trimmed) and \<open>Bar\<close>.
\<close>

theorem results_have_names_witness:
  "scrapeDirectUrl (pages example_world) ''u4'' = Inr None \<and>
   chunk_loop (pages example_world) 2 [''u4'', ''u3''] ([], []) =
     chunk_loop (pages example_world) 2 [''u3''] ([], []) \<and>
   scrapeDirectUrl (pages example_world) ''u3'' = Inr (Some (example_business ''Bar'' ''u3'')) \<and>
   (\<exists>n. name (example_business ''Bar'' ''u3'') = Some n \<and> n \<noteq> []) \<and>
   (\<exists>n. name (example_business ''Cafe'' ''u1'') = Some n \<and> n \<noteq> [])"
proof -
  have page: "pages example_world ''u4'' = Rendered (example_page ''  '') \<and>
      (\<not> name_visible (example_page ''  '') \<or>
       \<not> truthy (map_option trim (name_text (example_page ''  ''))))"
    by (simp add: example_world_def example_page_def truthy_def trim_def is_space_def)
  have none: "scrapeDirectUrl (pages example_world) ''u4'' = Inr None"
    using results_have_names [of "pages example_world" "''u4''" "example_page ''  ''"] page
    by blast
  have skip: "chunk_loop (pages example_world) 2 [''u4'', ''u3''] ([], []) =
      chunk_loop (pages example_world) 2 [''u3''] ([], [])"
    using results_have_names [of "pages example_world" "''u4''" _ _ 2 "[''u3'']" "([], [])"] none
    by blast
  have bar: "scrapeDirectUrl (pages example_world) ''u3'' =
      Inr (Some (example_business ''Bar'' ''u3''))"
    by code_simp
  have n1: "\<exists>n. name (example_business ''Bar'' ''u3'') = Some n \<and> n \<noteq> []"
    using results_have_names [of "pages example_world" "''u3''" _ "example_business ''Bar'' ''u3''"]
      bar by blast
  have "\<forall>r \<in> set [example_business ''Cafe'' ''u1'', example_business ''Bar'' ''u3''].
      \<exists>n. name r = Some n \<and> n \<noteq> []"
    using results_have_names [of _ _ _ _ _ _ _ example_world 2 2 example_runtime] example_run
    by blast
  then have n2: "\<exists>n. name (example_business ''Cafe'' ''u1'') = Some n \<and> n \<noteq> []"
    by simp
  show ?thesis using none skip bar n1 n2 by blast
qed

text \<open>
  Claim C2 says that a worker marks the key of every record it accepts in the shared set.
  scrapeUrlChunk only reads the set. Here the two URLs of a chunk give the same name
  and no phone number, the set is empty and the budget is one record: the worker accepts
  both records, which have the same key, and the set is still empty afterwards, so the
  test \<open>globalSeen.size >= maxTotal\<close> never stops a worker.
\<close>

theorem scrapeUrlChunk_accepts_without_marking:
  "scrapeUrlChunk example_world [''u1'', ''u2''] 0 [] 1 =
     (Inr [example_business ''Cafe'' ''u1'', example_business ''Cafe'' ''u2''], []) \<and>
   dedup_key (example_business ''Cafe'' ''u1'') = dedup_key (example_business ''Cafe'' ''u2'')"
  by code_simp

section \<open>The release of the browser\<close>





section \<open>The counter of POST /scrape\<close>


lemma sync_runs_bulk_runs [simp]: "filter (\<lambda>r. origin r = FromSync) (bulk_runs k t batch) = []"
  by (simp add: bulk_runs_def filter_empty_conv)





section \<open>The job map\<close>

lemma async_ids_append [simp]: "async_ids (xs @ ys) = async_ids xs @ async_ids ys"
  by (induction xs) (simp_all split: origin.splits)

lemma async_ids_bulk_runs [simp]: "async_ids (bulk_runs k t batch) = []"
  by (induction batch) (simp_all add: bulk_runs_def)

lemma async_ids_remove:
  assumes "n < length rs"
  shows "case origin (rs ! n) of
           FromAsync jobId \<Rightarrow>
             \<exists>a b. async_ids rs = a @ jobId # b \<and>
                   async_ids (take n rs @ drop (Suc n) rs) = a @ b
         | _ \<Rightarrow> async_ids (take n rs @ drop (Suc n) rs) = async_ids rs"
proof -
  have "rs = take n rs @ rs ! n # drop (Suc n) rs" using assms by (rule id_take_nth_drop)
  then have "async_ids rs = async_ids (take n rs) @ async_ids (rs ! n # drop (Suc n) rs)"
    by (metis async_ids_append)
  then show ?thesis by (auto split: origin.splits)
qed

lemma bulk_settled_async:
  "async_ids (in_flight (snd (bulk_settled k s))) = async_ids (in_flight s) \<and>
   jobs (snd (bulk_settled k s)) = jobs s"
  by (simp add: bulk_settled_def Let_def)

text \<open>What one event does to the jobs and to the runs of async jobs.\<close>

lemma handle_async_inv:
  assumes "async_inv s"
      and "\<And>req jobId now. e = PostScrapeAsync req jobId now \<Longrightarrow> jobs s jobId = None"
  shows "async_inv (snd (handle cfg e s))"
proof (cases e)
  case (PostScrape req)
  then show ?thesis using assms(1) by (simp add: post_scrape_def async_inv_def)
next
  case (PostScrapeBulk req)
  then show ?thesis using assms(1) by (simp add: post_scrape_bulk_def async_inv_def Let_def)
next
  case (PostScrapeAsync req jobId now)
  have none: "jobs s jobId = None" using assms(2) PostScrapeAsync by simp
  then have "jobId \<notin> set (async_ids (in_flight s))"
    using assms(1) by (auto simp: async_inv_def)
  then show ?thesis using assms(1) PostScrapeAsync
    by (auto simp: post_scrape_async_def async_inv_def job_shape_def)
next
  case (Settled n outcome now)
  show ?thesis
  proof (cases "n < length (in_flight s)")
    case False
    then show ?thesis using assms(1) Settled by (simp add: settled_def)
  next
    case True
    define s1 where "s1 = s\<lparr>in_flight := take n (in_flight s) @ drop (Suc n) (in_flight s)\<rparr>"
    have j1: "jobs s1 = jobs s" by (simp add: s1_def)
    have f1: "in_flight s1 = take n (in_flight s) @ drop (Suc n) (in_flight s)"
      by (simp add: s1_def)
    note rm = async_ids_remove [OF True]
    show ?thesis
    proof (cases "origin (in_flight s ! n)")
      case FromSync
      then have "async_ids (in_flight s1) = async_ids (in_flight s)" using rm f1 by simp
      then have "async_inv s1" using assms(1) j1 by (simp add: async_inv_def)
      then show ?thesis using Settled True FromSync
        by (simp add: settled_def Let_def sync_settled_def async_inv_def s1_def)
    next
      case (FromBulk k)
      then have "async_ids (in_flight s1) = async_ids (in_flight s)" using rm f1 by simp
      then have "async_inv s1" using assms(1) j1 by (simp add: async_inv_def)
      then have "async_inv (snd (bulk_settled k s1))"
        using bulk_settled_async [of k s1] by (simp add: async_inv_def)
      then show ?thesis using Settled True FromBulk
        by (simp add: settled_def Let_def s1_def)
    next
      case (FromAsync jobId)
      then obtain a b where ab: "async_ids (in_flight s) = a @ jobId # b"
          "async_ids (in_flight s1) = a @ b"
        using rm f1 by auto
      have d: "distinct (a @ jobId # b)" using assms(1) ab(1) by (simp add: async_inv_def)
      then have notin: "jobId \<notin> set (a @ b)" by auto
      obtain old where old: "jobs s jobId = Some old" "status old = pending"
        using assms(1) ab(1) by (auto simp: async_inv_def)
      have shape: "job_shape old" using assms(1) old(1) by (auto simp: async_inv_def)
      have pend: "job_results old = None" "job_error old = None"
        using shape old(2) by (auto simp: job_shape_def)
      define s2 where "s2 = async_settled jobId outcome now s1"
      have res: "snd (handle cfg e s) = s2"
        using Settled True FromAsync by (simp add: settled_def Let_def s1_def s2_def)
      have f2: "in_flight s2 = in_flight s1"
        by (simp add: s2_def async_settled_def split: sum.splits)
      obtain new where new: "jobs s2 = (jobs s)(jobId \<mapsto> new)" "job_shape new"
        using old pend j1
        by (cases outcome) (simp_all add: s2_def async_settled_def spread_job_def job_shape_def)
      have "distinct (async_ids (in_flight s2))" using d f2 ab(2) by simp
      moreover have "\<forall>i \<in> set (async_ids (in_flight s2)).
          \<exists>j. jobs s2 i = Some j \<and> status j = pending"
      proof
        fix i assume i: "i \<in> set (async_ids (in_flight s2))"
        then have "i \<in> set (a @ b)" using f2 ab(2) by simp
        then have "i \<noteq> jobId" "i \<in> set (async_ids (in_flight s))"
          using notin ab(1) by auto
        then show "\<exists>j. jobs s2 i = Some j \<and> status j = pending"
          using assms(1) new(1) by (auto simp: async_inv_def)
      qed
      moreover have "\<forall>i j. jobs s2 i = Some j \<longrightarrow> job_shape j"
        using assms(1) new by (auto simp: async_inv_def)
      ultimately show ?thesis unfolding res by (simp add: async_inv_def)
    qed
  qed
qed

text \<open>A job that has left \<open>pending\<close> is not written again.\<close>

lemma handle_settled_job_kept:
  assumes "async_inv s"
      and "\<And>req i now. e = PostScrapeAsync req i now \<Longrightarrow> jobs s i = None"
      and "jobs s jobId = Some j" and "status j \<noteq> pending"
  shows "jobs (snd (handle cfg e s)) jobId = Some j"
proof (cases e)
  case (PostScrape req)
  then show ?thesis using assms(3) by (simp add: post_scrape_def)
next
  case (PostScrapeBulk req)
  then show ?thesis using assms(3) by (simp add: post_scrape_bulk_def Let_def)
next
  case (PostScrapeAsync req i now)
  then have "jobs s i = None" using assms(2) by simp
  then have "i \<noteq> jobId" using assms(3) by auto
  then show ?thesis using assms(3) PostScrapeAsync by (simp add: post_scrape_async_def)
next
  case (Settled n outcome now)
  show ?thesis
  proof (cases "n < length (in_flight s)")
    case False
    then show ?thesis using assms(3) Settled by (simp add: settled_def)
  next
    case True
    define s1 where "s1 = s\<lparr>in_flight := take n (in_flight s) @ drop (Suc n) (in_flight s)\<rparr>"
    have j1: "jobs s1 = jobs s" by (simp add: s1_def)
    show ?thesis
    proof (cases "origin (in_flight s ! n)")
      case FromSync
      then show ?thesis using Settled True assms(3)
        by (simp add: settled_def Let_def sync_settled_def)
    next
      case (FromBulk k)
      then show ?thesis using Settled True assms(3) bulk_settled_async [of k s1] j1
        by (simp add: settled_def Let_def s1_def)
    next
      case (FromAsync i)
      then have "i \<in> set (async_ids (in_flight s))"
        using async_ids_remove [OF True] by auto
      then obtain old where "jobs s i = Some old" "status old = pending"
        using assms(1) by (auto simp: async_inv_def)
      then have "i \<noteq> jobId" using assms(3,4) by auto
      then show ?thesis using Settled True FromAsync assms(3)
        by (simp add: settled_def Let_def async_settled_def split: sum.splits)
    qed
  qed
qed

lemma serve_async_inv:
  "async_inv s \<Longrightarrow> fresh_uuids cfg evs s \<Longrightarrow> async_inv (serve cfg evs s)"
proof (induction evs arbitrary: s)
  case Nil
  then show ?case by simp
next
  case (Cons e evs)
  have "async_inv (snd (handle cfg e s))"
    using Cons.prems by (intro handle_async_inv) auto
  then show ?case using Cons.IH Cons.prems(2) by simp
qed

lemma serve_settled_job_kept:
  "async_inv s \<Longrightarrow> fresh_uuids cfg evs s \<Longrightarrow> jobs s jobId = Some j \<Longrightarrow> status j \<noteq> pending \<Longrightarrow>
   jobs (serve cfg evs s) jobId = Some j"
proof (induction evs arbitrary: s)
  case Nil
  then show ?case by simp
next
  case (Cons e evs)
  have a: "async_inv (snd (handle cfg e s))"
    using Cons.prems by (intro handle_async_inv) auto
  have b: "jobs (snd (handle cfg e s)) jobId = Some j"
    using Cons.prems by (intro handle_settled_job_kept) auto
  show ?case using Cons.IH [OF a _ b] Cons.prems by simp
qed

lemma fresh_uuids_append:
  "fresh_uuids cfg (evs @ evs') s =
     (fresh_uuids cfg evs s \<and> fresh_uuids cfg evs' (serve cfg evs s))"
  by (induction evs arbitrary: s) auto

lemma async_inv_initial: "async_inv initial_server"
  by (simp add: async_inv_def initial_server_def)

section \<open>Admission\<close>




section \<open>The parameters of POST /scrape\<close>

text \<open>
  Claim C9. A request to POST /scrape starts a call of scrapeGoogleMaps exactly when it
  passes the key check, has a query, and fewer than \<open>MAX_CONCURRENT_JOBS\<close> calls are
  counted; whether it does, and what is answered, does not depend on the requested
  \<open>maxResults\<close> and \<open>workers\<close>. The call it starts has \<open>maxResults\<close> equal to the
  smaller of the requested value (20 if absent) and 100, and \<open>workers\<close> equal to the
  smaller of the requested value (\<open>DEFAULT_WORKERS\<close> if absent) and 5.
\<close>

theorem post_scrape_clamps:
  assumes "handle cfg (PostScrape req) s = (out, s')"
  shows "((in_flight s' \<noteq> in_flight s) =
            (authMiddleware cfg req \<and> truthy (body_query req) \<and>
             activeJobs s < MAX_CONCURRENT_JOBS cfg)) \<and>
         (in_flight s' \<noteq> in_flight s \<longrightarrow>
            out = [] \<and>
            in_flight s' = in_flight s @
              [\<lparr>origin = FromSync, run_query = the (body_query req),
                opt_maxResults = min (or_default (body_maxResults req) 20) 100,
                opt_workers = min (or_default (body_workers req) (DEFAULT_WORKERS cfg)) 5\<rparr>]) \<and>
         fst (handle cfg (PostScrape (req\<lparr>body_maxResults := m, body_workers := k\<rparr>)) s) = out"
  using assms by (auto simp: post_scrape_def authMiddleware_def split: if_splits option.splits)

text \<open>A request for 500 results and 8 workers starts a call for 100 results and 5 workers.\<close>

theorem post_scrape_clamps_witness:
  "body_maxResults example_request = Some 500 \<and> body_workers example_request = Some 8 \<and>
   fst (handle example_config (PostScrape example_request) initial_server) = [] \<and>
   in_flight (snd (handle example_config (PostScrape example_request) initial_server)) =
     [\<lparr>origin = FromSync, run_query = ''cafe'', opt_maxResults = 100, opt_workers = 5\<rparr>]"
proof -
  obtain out s' where h: "handle example_config (PostScrape example_request) initial_server = (out, s')"
    by (cases "handle example_config (PostScrape example_request) initial_server")
  have ok: "authMiddleware example_config example_request \<and> truthy (body_query example_request) \<and>
      activeJobs initial_server < MAX_CONCURRENT_JOBS example_config"
    by code_simp
  note inst = post_scrape_clamps [OF h]
  have started: "in_flight s' \<noteq> in_flight initial_server" using inst ok by blast
  then have "out = [] \<and> in_flight s' = in_flight initial_server @
      [\<lparr>origin = FromSync, run_query = the (body_query example_request),
        opt_maxResults = min (or_default (body_maxResults example_request) 20) 100,
        opt_workers = min (or_default (body_workers example_request)
                             (DEFAULT_WORKERS example_config)) 5\<rparr>]"
    using inst by blast
  then show ?thesis using h
    by (simp add: example_request_def example_config_def initial_server_def or_default_def)
qed

section \<open>The life of a job\<close>

lemma handle_job_stays:
  "jobs s jobId = Some j \<Longrightarrow> \<exists>j'. jobs (snd (handle cfg e s)) jobId = Some j'"
proof (cases e)
  case (Settled n outcome now)
  assume "jobs s jobId = Some j"
  then show ?thesis using Settled bulk_settled_async
    by (auto simp: settled_def Let_def sync_settled_def async_settled_def
             split: origin.splits sum.splits)
qed (auto simp: post_scrape_def post_scrape_bulk_def post_scrape_async_def Let_def)

lemma serve_job_stays:
  "jobs s jobId = Some j \<Longrightarrow> \<exists>j'. jobs (serve cfg evs s) jobId = Some j'"
proof (induction evs arbitrary: s j)
  case Nil
  then show ?case by simp
next
  case (Cons e evs)
  obtain j' where "jobs (snd (handle cfg e s)) jobId = Some j'"
    using handle_job_stays [OF Cons.prems] by blast
  then show ?case using Cons.IH by simp
qed

text \<open>The calls in flight that belong to a job, by their position.\<close>

lemma set_async_ids:
  "jobId \<in> set (async_ids rs) \<longleftrightarrow> (\<exists>r \<in> set rs. origin r = FromAsync jobId)"
  by (induction rs) (auto split: origin.splits)

lemma async_ids_nth:
  "jobId \<in> set (async_ids rs) \<longleftrightarrow> (\<exists>n < length rs. origin (rs ! n) = FromAsync jobId)"
  unfolding set_async_ids by (metis in_set_conv_nth)

text \<open>The call of a pending job is in flight.\<close>

lemma handle_pending_in_flight:
  assumes "\<forall>i j. jobs s i = Some j \<and> status j = pending \<longrightarrow> i \<in> set (async_ids (in_flight s))"
  shows "\<forall>i j. jobs (snd (handle cfg e s)) i = Some j \<and> status j = pending
           \<longrightarrow> i \<in> set (async_ids (in_flight (snd (handle cfg e s))))"
proof (cases e)
  case (PostScrape req)
  then show ?thesis using assms by (auto simp: post_scrape_def)
next
  case (PostScrapeBulk req)
  then show ?thesis using assms by (auto simp: post_scrape_bulk_def Let_def)
next
  case (PostScrapeAsync req jobId now)
  then show ?thesis using assms by (auto simp: post_scrape_async_def)
next
  case (Settled n outcome now)
  show ?thesis
  proof (cases "n < length (in_flight s)")
    case False
    then show ?thesis using assms Settled by (simp add: settled_def)
  next
    case True
    define s1 where "s1 = s\<lparr>in_flight := take n (in_flight s) @ drop (Suc n) (in_flight s)\<rparr>"
    have j1: "jobs s1 = jobs s" by (simp add: s1_def)
    have f1: "in_flight s1 = take n (in_flight s) @ drop (Suc n) (in_flight s)"
      by (simp add: s1_def)
    note rm = async_ids_remove [OF True]
    show ?thesis
    proof (cases "origin (in_flight s ! n)")
      case FromSync
      then have "async_ids (in_flight s1) = async_ids (in_flight s)" using rm f1 by simp
      then show ?thesis using assms Settled True FromSync
        by (simp add: settled_def Let_def sync_settled_def s1_def)
    next
      case (FromBulk k)
      then have "async_ids (in_flight s1) = async_ids (in_flight s)" using rm f1 by simp
      then have "\<forall>i j. jobs (snd (bulk_settled k s1)) i = Some j \<and> status j = pending
          \<longrightarrow> i \<in> set (async_ids (in_flight (snd (bulk_settled k s1))))"
        using assms j1 bulk_settled_async [of k s1] by simp
      then show ?thesis using Settled True FromBulk
        by (simp add: settled_def Let_def s1_def)
    next
      case (FromAsync jobId)
      then obtain a b where ab: "async_ids (in_flight s) = a @ jobId # b"
          "async_ids (in_flight s1) = a @ b"
        using rm f1 by auto
      define s2 where "s2 = async_settled jobId outcome now s1"
      have res: "snd (handle cfg e s) = s2"
        using Settled True FromAsync by (simp add: settled_def Let_def s1_def s2_def)
      have f2: "in_flight s2 = in_flight s1"
        by (simp add: s2_def async_settled_def split: sum.splits)
      have own: "\<forall>j. jobs s2 jobId = Some j \<longrightarrow> status j \<noteq> pending"
        by (simp add: s2_def async_settled_def split: sum.splits)
      have other: "\<forall>i. i \<noteq> jobId \<longrightarrow> jobs s2 i = jobs s i"
        using j1 by (simp add: s2_def async_settled_def split: sum.splits)
      show ?thesis unfolding res
      proof (intro allI impI)
        fix i j assume ij: "jobs s2 i = Some j \<and> status j = pending"
        then have ne: "i \<noteq> jobId" using own by auto
        then have "jobs s i = Some j" using other ij by simp
        then have "i \<in> set (a @ jobId # b)" using assms ij ab(1) by metis
        then show "i \<in> set (async_ids (in_flight s2))" using ne f2 ab(2) by auto
      qed
    qed
  qed
qed

lemma serve_pending_in_flight:
  "\<forall>i j. jobs s i = Some j \<and> status j = pending \<longrightarrow> i \<in> set (async_ids (in_flight s)) \<Longrightarrow>
   \<forall>i j. jobs (serve cfg evs s) i = Some j \<and> status j = pending
         \<longrightarrow> i \<in> set (async_ids (in_flight (serve cfg evs s)))"
proof (induction evs arbitrary: s)
  case Nil
  then show ?case by simp
next
  case (Cons e evs)
  show ?case using Cons.IH [OF handle_pending_in_flight [OF Cons.prems, of cfg e]] by simp
qed

text \<open>What the settling of its call stores for a job, and that no other event writes it.\<close>

lemma settled_stores_outcome:
  assumes "n < length (in_flight s)" and "origin (in_flight s ! n) = FromAsync jobId"
      and "jobs s jobId = Some j"
  shows "jobs (snd (handle cfg (Settled n outcome now) s)) jobId =
           Some (case outcome of
                   Inr results \<Rightarrow> j\<lparr>status := completed, job_results := Some results,
                                     completedAt := Some now\<rparr>
                 | Inl e \<Rightarrow> j\<lparr>status := failed, job_error := Some e,
                               completedAt := Some now\<rparr>)"
  using assms
  by (cases outcome) (simp_all add: settled_def Let_def async_settled_def spread_job_def)

lemma other_event_keeps_job:
  assumes "jobs s jobId = Some j"
      and "\<forall>req now. e \<noteq> PostScrapeAsync req jobId now"
      and "\<forall>n outcome now. e = Settled n outcome now \<longrightarrow>
             \<not> (n < length (in_flight s) \<and> origin (in_flight s ! n) = FromAsync jobId)"
  shows "jobs (snd (handle cfg e s)) jobId = Some j"
proof (cases e)
  case (PostScrape req)
  then show ?thesis using assms(1) by (simp add: post_scrape_def)
next
  case (PostScrapeBulk req)
  then show ?thesis using assms(1) by (simp add: post_scrape_bulk_def Let_def)
next
  case (PostScrapeAsync req i now)
  then have "i \<noteq> jobId" using assms(2) by auto
  then show ?thesis using assms(1) PostScrapeAsync by (simp add: post_scrape_async_def)
next
  case (Settled n outcome now)
  show ?thesis
  proof (cases "n < length (in_flight s)")
    case False
    then show ?thesis using assms(1) Settled by (simp add: settled_def)
  next
    case True
    define s1 where "s1 = s\<lparr>in_flight := take n (in_flight s) @ drop (Suc n) (in_flight s)\<rparr>"
    have j1: "jobs s1 = jobs s" by (simp add: s1_def)
    show ?thesis
    proof (cases "origin (in_flight s ! n)")
      case FromSync
      then show ?thesis using Settled True assms(1)
        by (simp add: settled_def Let_def sync_settled_def)
    next
      case (FromBulk k)
      then show ?thesis using Settled True assms(1) bulk_settled_async [of k s1] j1
        by (simp add: settled_def Let_def s1_def)
    next
      case (FromAsync i)
      then have "i \<noteq> jobId" using assms(3) Settled True by auto
      then show ?thesis using Settled True FromAsync assms(1)
        by (simp add: settled_def Let_def async_settled_def split: sum.splits)
    qed
  qed
qed

text \<open>
  Claim C7. Along any sequence of events in which \<open>randomUUID\<close> never repeats an
  identifier, take a job of the map. It is pending with no results and no error, or
  completed with a result list, or failed with an error, and it stays in the map. While it
  is pending, its call is in flight, and the job has a call in flight only while it is
  pending. When that call settles, the job is written once: a fulfilled call makes it
  completed with exactly the list the call returned, a rejected call makes it failed with
  exactly the error of the call, and the other fields stay. No other event changes the
  job, and once it is completed or failed, no later event changes it at all. So a job
  leaves \<open>pending\<close> at most once, for one of the two final states.
\<close>

theorem job_settles_once:
  assumes "fresh_uuids cfg (evs @ evs') initial_server"
      and "s = serve cfg evs initial_server" and "s' = serve cfg evs' s"
      and "jobs s jobId = Some j"
  shows "((status j = pending \<and> job_results j = None \<and> job_error j = None) \<or>
          (status j = completed \<and> job_results j \<noteq> None \<and> job_error j = None) \<or>
          (status j = failed \<and> job_error j \<noteq> None \<and> job_results j = None)) \<and>
         (\<exists>j'. jobs s' jobId = Some j') \<and>
         (status j \<noteq> pending \<longrightarrow> jobs s' jobId = Some j) \<and>
         (status j = pending \<longrightarrow>
            (\<exists>n < length (in_flight s). origin (in_flight s ! n) = FromAsync jobId)) \<and>
         (\<forall>n outcome now.
            n < length (in_flight s) \<and> origin (in_flight s ! n) = FromAsync jobId \<longrightarrow>
            status j = pending \<and>
            jobs (snd (handle cfg (Settled n outcome now) s)) jobId =
              Some (case outcome of
                      Inr results \<Rightarrow> j\<lparr>status := completed, job_results := Some results,
                                        completedAt := Some now\<rparr>
                    | Inl e \<Rightarrow> j\<lparr>status := failed, job_error := Some e,
                                  completedAt := Some now\<rparr>)) \<and>
         (\<forall>e. (\<forall>req now. e \<noteq> PostScrapeAsync req jobId now) \<and>
              (\<forall>n outcome now. e = Settled n outcome now \<longrightarrow>
                 \<not> (n < length (in_flight s) \<and> origin (in_flight s ! n) = FromAsync jobId))
              \<longrightarrow> jobs (snd (handle cfg e s)) jobId = Some j)"
proof -
  have f: "fresh_uuids cfg evs initial_server" "fresh_uuids cfg evs' s"
    using assms(1,2) by (simp_all add: fresh_uuids_append)
  have inv: "async_inv s" unfolding assms(2)
    using async_inv_initial f(1) by (rule serve_async_inv)
  have pend: "\<forall>i j. jobs s i = Some j \<and> status j = pending
      \<longrightarrow> i \<in> set (async_ids (in_flight s))"
    unfolding assms(2) by (rule serve_pending_in_flight) (simp add: initial_server_def)
  have shape: "job_shape j" using inv assms(4) by (auto simp: async_inv_def)
  have kept: "status j \<noteq> pending \<longrightarrow> jobs s' jobId = Some j"
    unfolding assms(3) using inv f(2) assms(4) by (auto intro: serve_settled_job_kept)
  have stays: "\<exists>j'. jobs s' jobId = Some j'"
    unfolding assms(3) using assms(4) by (rule serve_job_stays)
  have flight: "status j = pending \<longrightarrow>
      (\<exists>n < length (in_flight s). origin (in_flight s ! n) = FromAsync jobId)"
    using pend assms(4) async_ids_nth [of jobId "in_flight s"] by blast
  have settle: "\<forall>n outcome now.
      n < length (in_flight s) \<and> origin (in_flight s ! n) = FromAsync jobId \<longrightarrow>
      status j = pending \<and>
      jobs (snd (handle cfg (Settled n outcome now) s)) jobId =
        Some (case outcome of
                Inr results \<Rightarrow> j\<lparr>status := completed, job_results := Some results,
                                  completedAt := Some now\<rparr>
              | Inl e \<Rightarrow> j\<lparr>status := failed, job_error := Some e,
                            completedAt := Some now\<rparr>)"
  proof (intro allI impI)
    fix n outcome now
    assume a: "n < length (in_flight s) \<and> origin (in_flight s ! n) = FromAsync jobId"
    then have "jobId \<in> set (async_ids (in_flight s))"
      using async_ids_nth [of jobId "in_flight s"] by blast
    then have "status j = pending" using inv assms(4) by (auto simp: async_inv_def)
    moreover note settled_stores_outcome [of n s jobId j cfg outcome now]
    ultimately show "status j = pending \<and>
      jobs (snd (handle cfg (Settled n outcome now) s)) jobId =
        Some (case outcome of
                Inr results \<Rightarrow> j\<lparr>status := completed, job_results := Some results,
                                  completedAt := Some now\<rparr>
              | Inl e \<Rightarrow> j\<lparr>status := failed, job_error := Some e,
                            completedAt := Some now\<rparr>)"
      using a assms(4) by blast
  qed
  have others: "\<forall>e. (\<forall>req now. e \<noteq> PostScrapeAsync req jobId now) \<and>
      (\<forall>n outcome now. e = Settled n outcome now \<longrightarrow>
         \<not> (n < length (in_flight s) \<and> origin (in_flight s ! n) = FromAsync jobId))
      \<longrightarrow> jobs (snd (handle cfg e s)) jobId = Some j"
    using other_event_keeps_job [OF assms(4)] by blast
  show ?thesis
    using shape kept stays flight settle others unfolding job_shape_def by blast
qed

text \<open>
  A job is submitted; its call is the only one in flight. The call returns one record:
  the job is completed with that record. Afterwards another job is submitted and fails,
  and an event for a call that does not exist arrives: the first job is unchanged.
\<close>

theorem job_settles_once_witness:
  "fresh_uuids example_config
     ([PostScrapeAsync example_request ''job-1'' ''12:00'',
       Settled 0 (Inr [example_business ''Bar'' ''u3'']) ''12:01''] @
      [PostScrapeAsync example_request ''job-2'' ''12:02'', Settled 0 (Inl ''crash'') ''12:03'',
       Settled 0 (Inr []) ''12:04''])
     initial_server \<and>
   jobs (serve example_config [PostScrapeAsync example_request ''job-1'' ''12:00''] initial_server)
       ''job-1'' =
     Some \<lparr>status = pending, job_query = Some ''cafe'', createdAt = Some ''12:00'',
           job_results = None, job_error = None, completedAt = None\<rparr> \<and>
   jobs (serve example_config
          [PostScrapeAsync example_request ''job-1'' ''12:00'',
           Settled 0 (Inr [example_business ''Bar'' ''u3'']) ''12:01'']
          initial_server) ''job-1'' =
     Some \<lparr>status = completed, job_query = Some ''cafe'', createdAt = Some ''12:00'',
           job_results = Some [example_business ''Bar'' ''u3''], job_error = None,
           completedAt = Some ''12:01''\<rparr> \<and>
   jobs (serve example_config
          [PostScrapeAsync example_request ''job-2'' ''12:02'', Settled 0 (Inl ''crash'') ''12:03'',
           Settled 0 (Inr []) ''12:04'']
          (serve example_config
             [PostScrapeAsync example_request ''job-1'' ''12:00'',
              Settled 0 (Inr [example_business ''Bar'' ''u3'']) ''12:01'']
             initial_server)) ''job-1'' =
     Some \<lparr>status = completed, job_query = Some ''cafe'', createdAt = Some ''12:00'',
           job_results = Some [example_business ''Bar'' ''u3''], job_error = None,
           completedAt = Some ''12:01''\<rparr>"
proof -
  let ?post = "PostScrapeAsync example_request ''job-1'' ''12:00''"
  let ?settle = "Settled 0 (Inr [example_business ''Bar'' ''u3'']) ''12:01''"
  let ?evs' = "[PostScrapeAsync example_request ''job-2'' ''12:02'',
                Settled 0 (Inl ''crash'') ''12:03'', Settled 0 (Inr []) ''12:04'']"
  let ?p = "\<lparr>status = pending, job_query = Some ''cafe'', createdAt = Some ''12:00'',
            job_results = None, job_error = None, completedAt = None\<rparr>"
  let ?c = "\<lparr>status = completed, job_query = Some ''cafe'', createdAt = Some ''12:00'',
            job_results = Some [example_business ''Bar'' ''u3''], job_error = None,
            completedAt = Some ''12:01''\<rparr>"
  have fresh: "fresh_uuids example_config ([?post, ?settle] @ ?evs') initial_server"
    by code_simp
  have fresh1: "fresh_uuids example_config ([?post] @ [?settle]) initial_server"
    by code_simp
  have submitted: "jobs (serve example_config [?post] initial_server) ''job-1'' = Some ?p"
    by code_simp
  have call: "0 < length (in_flight (serve example_config [?post] initial_server)) \<and>
      origin (in_flight (serve example_config [?post] initial_server) ! 0) = FromAsync ''job-1''"
    by code_simp
  have "jobs (snd (handle example_config ?settle (serve example_config [?post] initial_server)))
          ''job-1'' =
        Some (case Inr [example_business ''Bar'' ''u3''] of
                Inr results \<Rightarrow> ?p\<lparr>status := completed, job_results := Some results,
                                   completedAt := Some ''12:01''\<rparr>
              | Inl e \<Rightarrow> ?p\<lparr>status := failed, job_error := Some e,
                             completedAt := Some ''12:01''\<rparr>)"
    using job_settles_once [OF fresh1 refl refl submitted] call by blast
  then have stored: "jobs (serve example_config [?post, ?settle] initial_server) ''job-1'' = Some ?c"
    by simp
  have "status ?c \<noteq> pending" by simp
  then have later:
    "jobs (serve example_config ?evs' (serve example_config [?post, ?settle] initial_server))
       ''job-1'' = Some ?c"
    using job_settles_once [OF fresh refl refl stored] by blast
  show ?thesis using fresh submitted stored later by simp
qed

end
